theory Spec2Isabelle
  imports Main
begin

section \<open>Data model\<close>

text \<open>
  The synchronisation orchestrator of \<^verbatim>\<open>syncer.go\<close>: one pass lists the schemas and
  tables of a PostgreSQL snapshot, exports every selected table as CSV, hands the rows
  in batches to the Iceberg writer and finally deletes the Iceberg schemas and tables
  that were not synced in the pass.
\<close>

record SchemaTable =
  Schema :: string
  Table :: string
  ParentPartitionedTable :: string

text \<open>
  Modelled from the spec: the method \<^verbatim>\<open>SchemaTable.String()\<close> is declared outside
  \<^verbatim>\<open>syncer.go\<close> and \<^verbatim>\<open>config.go\<close>; a table
  "renders canonically as schema.table".
\<close>

definition SchemaTable_String :: "SchemaTable \<Rightarrow> string" where
  "SchemaTable_String t = Schema t @ ''.'' @ Table t"

text \<open>
  Modelled from the spec: the struct \<^verbatim>\<open>PgSchemaColumn\<close> is declared outside the two
  files; its fields are the nine targets of \<^verbatim>\<open>rows.Scan\<close> in
  \<^verbatim>\<open>pgTableSchemaColumns\<close>, kept here as the text the query returns.
\<close>

record PgSchemaColumn =
  ColumnName :: string
  DataType :: string
  UdtName :: string
  IsNullable :: string
  OrdinalPosition :: string
  CharacterMaximumLength :: string
  NumericPrecision :: string
  NumericScale :: string
  DatetimePrecision :: string

text \<open>The fields of \<^verbatim>\<open>Config\<close> that the syncer reads (\<^verbatim>\<open>config.go\<close>).\<close>

record PgConfig =
  DatabaseUrl :: string
  SyncInterval :: string
  SchemaPrefix :: string

record Config =
  OnlyTables :: string
  Pg :: PgConfig

text \<open>
  Lines 104 to 107 of \<^verbatim>\<open>registerFlags\<close>: an allow-list that is empty when the flag is
  registered becomes the default, the wildcard.
\<close>

definition DEFAULT_TABLES :: string where
  "DEFAULT_TABLES = ''*''"

definition registerFlags_OnlyTables :: "string \<Rightarrow> string" where
  "registerFlags_OnlyTables fromEnvironment =
     (if fromEnvironment = [] then DEFAULT_TABLES else fromEnvironment)"

definition BATCH_SIZE :: nat where
  "BATCH_SIZE = 10000"

text \<open>
  Errors are values. \<open>EOF\<close> is \<^verbatim>\<open>io.EOF\<close>, \<open>ParseError\<close> a malformed CSV record
  (\<^verbatim>\<open>csv.ParseError\<close>), \<open>Failure\<close> any other error a collaborator reports. A result
  \<open>Inl e\<close> of a pass is the panic raised by \<^verbatim>\<open>PanicIfError\<close>.
\<close>

datatype error = EOF | ParseError string | Failure string

section \<open>The allow-list\<close>

text \<open>
  \<^verbatim>\<open>strings.Split(s, ",")\<close> for a one-character separator: the substrings between the
  separators, in order; a string without separator (the empty string too) gives one entry.
\<close>

fun strings_Split :: "string \<Rightarrow> char \<Rightarrow> string list" where
  "strings_Split [] sep = [[]]"
| "strings_Split (c # cs) sep =
     (if c = sep then [] # strings_Split cs sep
      else (case strings_Split cs sep of
              [] \<Rightarrow> [[c]]
            | e # es \<Rightarrow> (c # e) # es))"


text \<open>
  Lines 35 to 41 of \<^verbatim>\<open>SyncFromPostgres\<close>: the map holds one key per entry of a
  list that is not \<^verbatim>\<open>"*"\<close>, each with the value false, and is empty for \<^verbatim>\<open>"*"\<close>.
\<close>

definition make_onlyTablesMap :: "Config \<Rightarrow> (string \<rightharpoonup> bool)" where
  "make_onlyTablesMap config =
     (if OnlyTables config \<noteq> ''*''
      then fold (\<lambda>e m. m(e \<mapsto> False)) (strings_Split (OnlyTables config) CHR '','') Map.empty
      else Map.empty)"

text \<open>
  Lines 53 to 58: \<^verbatim>\<open>syncTable\<close> starts as the test that the table is named
  \<^verbatim>\<open>"*"\<close> and becomes true when the name is a key of the map; a key that is found is
  marked true in the map.
\<close>

definition syncTable :: "(string \<rightharpoonup> bool) \<Rightarrow> string \<Rightarrow> bool" where
  "syncTable onlyTablesMap tableName =
     (case onlyTablesMap tableName of
        Some seen \<Rightarrow> True
      | None \<Rightarrow> tableName = ''*'')"

definition mark_seen :: "(string \<rightharpoonup> bool) \<Rightarrow> string \<Rightarrow> (string \<rightharpoonup> bool)" where
  "mark_seen onlyTablesMap tableName =
     (case onlyTablesMap tableName of
        Some seen \<Rightarrow> onlyTablesMap(tableName \<mapsto> True)
      | None \<Rightarrow> onlyTablesMap)"

section \<open>The batch pipeline\<close>

text \<open>
  The CSV reader over an exported file is the list of the results its successive
  \<^verbatim>\<open>Read()\<close> calls give before the data ends: a record, or a parse error. On the
  empty list \<^verbatim>\<open>Read()\<close> returns \<^verbatim>\<open>io.EOF\<close>.
\<close>

type_synonym csv_stream = "(error + string list) list"

fun csvReader_Read :: "csv_stream \<Rightarrow> (error + string list) \<times> csv_stream" where
  "csvReader_Read [] = (Inl EOF, [])"
| "csvReader_Read (r # rest) = (r, rest)"

text \<open>
  The closure passed to \<^verbatim>\<open>icebergWriter.Write\<close> captures the reader and the flag
  \<^verbatim>\<open>reachedEnd\<close>; the record is that captured state.
\<close>

record pipeline =
  csvReader :: csv_stream
  reachedEnd :: bool

text \<open>
  The \<^verbatim>\<open>for\<close> loop of the closure (lines 136 to 147), with the rows read so far: any
  error of \<^verbatim>\<open>Read()\<close> sets the flag and leaves the loop; a row is appended and the
  loop is left when the batch has \<open>maxRows\<close> rows. The result is the batch, the reader
  and the value the loop gives the flag.
\<close>

fun read_loop :: "nat \<Rightarrow> string list list \<Rightarrow> csv_stream \<Rightarrow> string list list \<times> csv_stream \<times> bool" where
  "read_loop maxRows rows [] = (rows, [], True)"
| "read_loop maxRows rows (Inl err # rest) = (rows, rest, True)"
| "read_loop maxRows rows (Inr row # rest) =
     (let rows' = rows @ [row]
      in if length rows' \<ge> maxRows then (rows', rest, False)
         else read_loop maxRows rows' rest)"

definition nextBatch :: "nat \<Rightarrow> pipeline \<Rightarrow> string list list \<times> pipeline" where
  "nextBatch maxRows p =
     (if reachedEnd p then ([], p)
      else (case read_loop maxRows [] (csvReader p) of
              (rows, rest, ended) \<Rightarrow> (rows, \<lparr>csvReader = rest, reachedEnd = ended\<rparr>)))"

text \<open>The batches of \<open>k\<close> successive pulls of the closure.\<close>

fun pulls :: "nat \<Rightarrow> nat \<Rightarrow> pipeline \<Rightarrow> string list list list" where
  "pulls maxRows 0 p = []"
| "pulls maxRows (Suc k) p =
     (case nextBatch maxRows p of (rows, p') \<Rightarrow> rows # pulls maxRows k p')"

text \<open>The state of the closure after \<open>k\<close> pulls.\<close>

fun after_pulls :: "nat \<Rightarrow> nat \<Rightarrow> pipeline \<Rightarrow> pipeline" where
  "after_pulls maxRows 0 p = p"
| "after_pulls maxRows (Suc k) p = after_pulls maxRows k (snd (nextBatch maxRows p))"

section \<open>Collaborators\<close>

text \<open>
  The pass talks to PostgreSQL (through \<^verbatim>\<open>pgx\<close>), to the file system and to the Iceberg
  reader and writer. Every such call is recorded, in order, in a log; the log is the state
  that the functions of the pass thread through.
\<close>

datatype call =
    PgConnect string
  | PgExec string
  | PgClose
  | QuerySchemata
  | QueryTables string
  | CreateTemporaryFile string
  | CopyTo string
  | OsOpen string
  | DeleteTemporaryFile string
  | QueryColumns SchemaTable "string list"
  | IcebergWrite SchemaTable "PgSchemaColumn list" "string list list list"
  | ReaderSchemas
  | DeleteSchema string
  | ReaderSchemaTables
  | DeleteSchemaTable SchemaTable

text \<open>
  A row of \<^verbatim>\<open>pg_class\<close> joined with its namespace and, through
  \<^verbatim>\<open>pg_inherits\<close>, with its parent (the empty string where the join finds none), and a
  row of \<^verbatim>\<open>information_schema.columns\<close>.
\<close>

record pg_class_row =
  nspname :: string
  relname :: string
  relkind :: char
  parent_relname :: string

record columns_row =
  table_schema :: string
  table_name :: string
  column_values :: PgSchemaColumn

text \<open>
  What the collaborators answer in one pass. The source is read in one serializable
  read-only transaction, so its catalog and the CSV export of a table are fixed;
  \<open>copy_csv\<close> gives, for the name in the \<^verbatim>\<open>COPY\<close> command, what the CSV reader will
  deliver from the exported file. The two listings of the Iceberg reader are each asked
  for once. \<open>fails\<close> says whether a call made after the calls of the log fails, and
  with which error.
\<close>

record env =
  fails :: "call list \<Rightarrow> call \<Rightarrow> error option"
  schemata :: "string list"
  pg_class :: "pg_class_row list"
  information_schema_columns :: "columns_row list"
  copy_csv :: "string \<Rightarrow> csv_stream"
  icebergSchemas :: "string list"
  icebergSchemaTables :: "SchemaTable list"

text \<open>
  A step of the pass takes the log and returns the extended log with either its value or
  the error a \<^verbatim>\<open>PanicIfError\<close> raised; a panic ends the pass.
\<close>

type_synonym 'a prog = "call list \<Rightarrow> (error + 'a) \<times> call list"

definition returns :: "'a \<Rightarrow> 'a prog" where
  "returns x = (\<lambda>log. (Inr x, log))"

definition panics :: "error \<Rightarrow> 'a prog" where
  "panics e = (\<lambda>log. (Inl e, log))"

definition andThen :: "'a prog \<Rightarrow> ('a \<Rightarrow> 'b prog) \<Rightarrow> 'b prog" where
  "andThen m f =
     (\<lambda>log. case m log of
               (Inl e, log') \<Rightarrow> (Inl e, log')
             | (Inr x, log') \<Rightarrow> f x log')"

text \<open>A call to a collaborator followed by \<^verbatim>\<open>PanicIfError\<close>.\<close>

definition external :: "env \<Rightarrow> call \<Rightarrow> unit prog" where
  "external env c =
     (\<lambda>log. case fails env log c of
               Some e \<Rightarrow> (Inl e, log @ [c])
             | None \<Rightarrow> (Inr (), log @ [c]))"

text \<open>\<^verbatim>\<open>defer\<close>: the call is made when the body is left, by return or by panic.\<close>

definition deferred :: "call \<Rightarrow> 'a prog \<Rightarrow> 'a prog" where
  "deferred c m = (\<lambda>log. case m log of (r, log') \<Rightarrow> (r, log' @ [c]))"

section \<open>Catalog enumeration\<close>

text \<open>
  The query of \<^verbatim>\<open>listPgSchemas\<close>: the schema names of
  \<^verbatim>\<open>information_schema.schemata\<close> that are not in the list of three.
\<close>

definition select_schemas :: "env \<Rightarrow> string list" where
  "select_schemas env =
     filter (\<lambda>schema_name. schema_name \<notin> set [''pg_catalog'', ''pg_toast'', ''information_schema''])
       (schemata env)"

definition listPgSchemas :: "env \<Rightarrow> string list prog" where
  "listPgSchemas env = andThen (external env QuerySchemata) (\<lambda>_. returns (select_schemas env))"

text \<open>
  The query of \<^verbatim>\<open>listPgSchemaTables\<close>: the ordinary tables (\<^verbatim>\<open>relkind = 'r'\<close>) of the
  namespace, each scanned into a \<^verbatim>\<open>SchemaTable\<close> of that schema.
\<close>

definition select_tables :: "env \<Rightarrow> string \<Rightarrow> SchemaTable list" where
  "select_tables env schema =
     map (\<lambda>row. \<lparr>Schema = schema, Table = relname row, ParentPartitionedTable = parent_relname row\<rparr>)
       (filter (\<lambda>row. nspname row = schema \<and> relkind row = CHR ''r'') (pg_class env))"

definition listPgSchemaTables :: "env \<Rightarrow> string \<Rightarrow> SchemaTable list prog" where
  "listPgSchemaTables env schema =
     andThen (external env (QueryTables schema)) (\<lambda>_. returns (select_tables env schema))"

text \<open>
  \<^verbatim>\<open>array_position\<close> of PostgreSQL: the 1-based position of the first occurrence, or
  null. The query of \<^verbatim>\<open>pgTableSchemaColumns\<close> takes the rows of
  \<^verbatim>\<open>information_schema.columns\<close> for the schema and table and orders them by
  \<^verbatim>\<open>array_position($3, column_name)\<close> ascending, which puts nulls last; rows with
  equal keys keep the order the catalog gives them, which is any order.
\<close>

fun array_position :: "string list \<Rightarrow> string \<Rightarrow> nat option" where
  "array_position [] x = None"
| "array_position (y # ys) x =
     (if x = y then Some 1 else map_option Suc (array_position ys x))"

definition column_name :: "columns_row \<Rightarrow> string" where
  "column_name row = ColumnName (column_values row)"

definition order_key :: "string list \<Rightarrow> columns_row \<Rightarrow> nat" where
  "order_key csvHeader row =
     (case array_position csvHeader (column_name row) of
        Some i \<Rightarrow> i
      | None \<Rightarrow> Suc (length csvHeader))"

definition table_columns :: "env \<Rightarrow> SchemaTable \<Rightarrow> columns_row list" where
  "table_columns env pgSchemaTable =
     filter (\<lambda>row. table_schema row = Schema pgSchemaTable \<and> table_name row = Table pgSchemaTable)
       (information_schema_columns env)"

definition select_columns :: "env \<Rightarrow> SchemaTable \<Rightarrow> string list \<Rightarrow> PgSchemaColumn list" where
  "select_columns env pgSchemaTable csvHeader =
     map column_values (sort_key (order_key csvHeader) (table_columns env pgSchemaTable))"

definition pgTableSchemaColumns :: "env \<Rightarrow> SchemaTable \<Rightarrow> string list \<Rightarrow> PgSchemaColumn list prog" where
  "pgTableSchemaColumns env pgSchemaTable csvHeader =
     andThen (external env (QueryColumns pgSchemaTable csvHeader))
       (\<lambda>_. returns (select_columns env pgSchemaTable csvHeader))"

section \<open>Export and write of one table\<close>

text \<open>
  \<^verbatim>\<open>exportPgTableToCsv\<close>: the temporary file, the \<^verbatim>\<open>COPY ... TO STDOUT WITH CSV HEADER\<close>
  into it and the reopening for reading, each followed by \<^verbatim>\<open>PanicIfError\<close> (for the
  reopening, in the caller); the temporary file is deleted when the function is left.
\<close>

definition exportPgTableToCsv :: "env \<Rightarrow> SchemaTable \<Rightarrow> csv_stream prog" where
  "exportPgTableToCsv env pgSchemaTable =
     andThen (external env (CreateTemporaryFile (SchemaTable_String pgSchemaTable))) (\<lambda>_.
     deferred (DeleteTemporaryFile (SchemaTable_String pgSchemaTable))
       (andThen (external env (CopyTo (SchemaTable_String pgSchemaTable))) (\<lambda>_.
        andThen (external env (OsOpen (SchemaTable_String pgSchemaTable))) (\<lambda>_.
        returns (copy_csv env (SchemaTable_String pgSchemaTable))))))"

section \<open>The sync pass\<close>

text \<open>Every pull that returns rows moves the reader forward, so pulling until empty ends.\<close>

lemma read_loop_consumes:
  "read_loop n acc s = (rows, rest, ended) \<Longrightarrow>
     length rest \<le> length s \<and> (length acc < length rows \<longrightarrow> length rest < length s)"
proof (induction n acc s arbitrary: rows rest ended rule: read_loop.induct)
  case (1 maxRows rows)
  then show ?case by simp
next
  case (2 maxRows rows err rest)
  then show ?case by auto
next
  case (3 maxRows acc row more)
  show ?case
  proof (cases "maxRows \<le> length (acc @ [row])")
    case True
    with 3(2) show ?thesis by auto
  next
    case False
    with 3(2) have "read_loop maxRows (acc @ [row]) more = (rows, rest, ended)"
      by simp
    from 3(1)[OF refl False this] show ?thesis by auto
  qed
qed

lemma nextBatch_reader:
  assumes "nextBatch n p = (rows, p')"
  shows "length (csvReader p') \<le> length (csvReader p)"
    and "rows \<noteq> [] \<Longrightarrow> length (csvReader p') < length (csvReader p)"
  using assms read_loop_consumes[of n "[]" "csvReader p"]
  by (auto simp: nextBatch_def split: if_splits prod.splits)

text \<open>
  Modelled from the spec: \<^verbatim>\<open>IcebergWriter.Write\<close> is declared outside the two files; the
  writer "ingests batches until nextBatch yields empty". These are the batches it ingests
  from the closure.
\<close>

function Write_batches :: "nat \<Rightarrow> pipeline \<Rightarrow> string list list list" where
  "Write_batches maxRows p =
     (case nextBatch maxRows p of
        (rows, p') \<Rightarrow> if rows = [] then [] else rows # Write_batches maxRows p')"
  by pat_completeness auto
termination
proof (relation "measure (\<lambda>(maxRows, p). length (csvReader p))")
  show "wf (measure (\<lambda>(maxRows, p). length (csvReader p)))"
    by simp
next
  fix maxRows :: nat and p p' :: pipeline and rows :: "string list list"
  assume "(rows, p') = nextBatch maxRows p" and "rows \<noteq> []"
  then have "length (csvReader p') < length (csvReader p)"
    using nextBatch_reader(2)[of maxRows p rows p'] by simp
  then show "((maxRows, p'), (maxRows, p)) \<in> measure (\<lambda>(maxRows, p). length (csvReader p))"
    by simp
qed

declare Write_batches.simps [simp del]

text \<open>
  \<^verbatim>\<open>syncFromPgTable\<close>: the export, the header read with its \<^verbatim>\<open>PanicIfError\<close>, the column
  query with the header, and the write, whose closure starts behind the header with the
  flag down. Logging and the close of the CSV file are not recorded.
\<close>

definition syncFromPgTable :: "env \<Rightarrow> SchemaTable \<Rightarrow> unit prog" where
  "syncFromPgTable env pgSchemaTable =
     andThen (exportPgTableToCsv env pgSchemaTable) (\<lambda>csvFile.
       case csvReader_Read csvFile of
         (Inl err, rest) \<Rightarrow> panics err
       | (Inr csvHeader, rest) \<Rightarrow>
           andThen (pgTableSchemaColumns env pgSchemaTable csvHeader) (\<lambda>pgSchemaColumns.
             external env
               (IcebergWrite pgSchemaTable pgSchemaColumns
                  (Write_batches BATCH_SIZE \<lparr>csvReader = rest, reachedEnd = False\<rparr>))))"

text \<open>
  The two nested \<^verbatim>\<open>for\<close> loops of \<^verbatim>\<open>SyncFromPostgres\<close> (lines 51 to 64); the loop
  state is the map of the allow-list and the tables synced so far.
\<close>

fun tables_loop ::
  "env \<Rightarrow> SchemaTable list \<Rightarrow> (string \<rightharpoonup> bool) \<times> SchemaTable list \<Rightarrow>
     ((string \<rightharpoonup> bool) \<times> SchemaTable list) prog" where
  "tables_loop env [] state = returns state"
| "tables_loop env (pgSchemaTable # rest) (onlyTablesMap, pgSchemaTables) =
     (if syncTable onlyTablesMap (Table pgSchemaTable)
      then andThen (syncFromPgTable env pgSchemaTable) (\<lambda>_.
             tables_loop env rest
               (mark_seen onlyTablesMap (Table pgSchemaTable), pgSchemaTables @ [pgSchemaTable]))
      else tables_loop env rest (mark_seen onlyTablesMap (Table pgSchemaTable), pgSchemaTables))"

fun schemas_loop ::
  "env \<Rightarrow> string list \<Rightarrow> (string \<rightharpoonup> bool) \<times> SchemaTable list \<Rightarrow>
     ((string \<rightharpoonup> bool) \<times> SchemaTable list) prog" where
  "schemas_loop env [] state = returns state"
| "schemas_loop env (schema # rest) state =
     andThen (listPgSchemaTables env schema) (\<lambda>tables.
     andThen (tables_loop env tables state) (\<lambda>state'.
     schemas_loop env rest state'))"

section \<open>Reconciliation\<close>

text \<open>The two inner search loops of \<^verbatim>\<open>deleteOldIcebergSchemaTables\<close>.\<close>

fun found_schema :: "string \<Rightarrow> SchemaTable list \<Rightarrow> bool" where
  "found_schema icebergSchema [] = False"
| "found_schema icebergSchema (pgSchemaTable # rest) =
     (if icebergSchema = Schema pgSchemaTable then True else found_schema icebergSchema rest)"

fun found_table :: "SchemaTable \<Rightarrow> SchemaTable list \<Rightarrow> bool" where
  "found_table icebergSchemaTable [] = False"
| "found_table icebergSchemaTable (pgSchemaTable # rest) =
     (if SchemaTable_String icebergSchemaTable = SchemaTable_String pgSchemaTable then True
      else found_table icebergSchemaTable rest)"

fun delete_schemas :: "env \<Rightarrow> SchemaTable list \<Rightarrow> string list \<Rightarrow> unit prog" where
  "delete_schemas env prefixedPgSchemaTables [] = returns ()"
| "delete_schemas env prefixedPgSchemaTables (icebergSchema # rest) =
     (if \<not> found_schema icebergSchema prefixedPgSchemaTables
      then andThen (external env (DeleteSchema icebergSchema))
             (\<lambda>_. delete_schemas env prefixedPgSchemaTables rest)
      else delete_schemas env prefixedPgSchemaTables rest)"

fun delete_tables :: "env \<Rightarrow> SchemaTable list \<Rightarrow> SchemaTable list \<Rightarrow> unit prog" where
  "delete_tables env prefixedPgSchemaTables [] = returns ()"
| "delete_tables env prefixedPgSchemaTables (icebergSchemaTable # rest) =
     (if \<not> found_table icebergSchemaTable prefixedPgSchemaTables
      then andThen (external env (DeleteSchemaTable icebergSchemaTable))
             (\<lambda>_. delete_tables env prefixedPgSchemaTables rest)
      else delete_tables env prefixedPgSchemaTables rest)"

definition prefixed :: "Config \<Rightarrow> SchemaTable list \<Rightarrow> SchemaTable list" where
  "prefixed config pgSchemaTables =
     map (\<lambda>pgSchemaTable.
            \<lparr>Schema = SchemaPrefix (Pg config) @ Schema pgSchemaTable,
             Table = Table pgSchemaTable,
             ParentPartitionedTable = []\<rparr>)
       pgSchemaTables"

definition deleteOldIcebergSchemaTables :: "Config \<Rightarrow> env \<Rightarrow> SchemaTable list \<Rightarrow> unit prog" where
  "deleteOldIcebergSchemaTables config env pgSchemaTables =
     andThen (external env ReaderSchemas) (\<lambda>_.
     andThen (delete_schemas env (prefixed config pgSchemaTables) (icebergSchemas env)) (\<lambda>_.
     andThen (external env ReaderSchemaTables) (\<lambda>_.
     delete_tables env (prefixed config pgSchemaTables) (icebergSchemaTables env))))"

section \<open>One pass\<close>

definition BEGIN_SNAPSHOT :: string where
  "BEGIN_SNAPSHOT = ''BEGIN TRANSACTION ISOLATION LEVEL SERIALIZABLE READ ONLY DEFERRABLE''"

definition SyncFromPostgres :: "Config \<Rightarrow> env \<Rightarrow> unit prog" where
  "SyncFromPostgres config env =
     andThen (external env (PgConnect (DatabaseUrl (Pg config)))) (\<lambda>_.
     deferred PgClose
       (andThen (external env (PgExec BEGIN_SNAPSHOT)) (\<lambda>_.
        andThen (listPgSchemas env) (\<lambda>schemas.
        andThen (schemas_loop env schemas (make_onlyTablesMap config, [])) (\<lambda>state.
        deleteOldIcebergSchemaTables config env (snd state))))))"

section \<open>What a log shows\<close>

text \<open>
  The calls of reconciliation (the two listings of the destination and its deletes), the
  calls of the export-and-write step of one table, and the calls that list, export or
  write the tables of the source.
\<close>

fun is_reconcile :: "call \<Rightarrow> bool" where
  "is_reconcile ReaderSchemas = True"
| "is_reconcile (DeleteSchema s) = True"
| "is_reconcile ReaderSchemaTables = True"
| "is_reconcile (DeleteSchemaTable t) = True"
| "is_reconcile c = False"

fun is_table_sync :: "call \<Rightarrow> bool" where
  "is_table_sync (CreateTemporaryFile n) = True"
| "is_table_sync (CopyTo n) = True"
| "is_table_sync (OsOpen n) = True"
| "is_table_sync (DeleteTemporaryFile n) = True"
| "is_table_sync (QueryColumns t h) = True"
| "is_table_sync (IcebergWrite t cols batches) = True"
| "is_table_sync c = False"

fun is_source :: "call \<Rightarrow> bool" where
  "is_source (QueryTables s) = True"
| "is_source c = is_table_sync c"

text \<open>The tables the writer was called for, in order.\<close>

fun written :: "call list \<Rightarrow> SchemaTable list" where
  "written [] = []"
| "written (IcebergWrite t cols batches # cs) = t # written cs"
| "written (c # cs) = written cs"

text \<open>
  The tables the two listings of a pass enumerate, and those of them that pass the test of
  lines 53 to 58 against the map built from the configuration.
\<close>

definition enumerated :: "env \<Rightarrow> SchemaTable list" where
  "enumerated env = concat (map (select_tables env) (select_schemas env))"

definition selected :: "Config \<Rightarrow> env \<Rightarrow> SchemaTable list" where
  "selected config env =
     filter (\<lambda>t. syncTable (make_onlyTablesMap config) (Table t)) (enumerated env)"

text \<open>
  The calls of a reconciliation that runs to its end for the given synced tables: the
  listing of the schemas, a delete for each listed schema that is the schema of no
  prefixed synced table, the listing of the tables, and a delete for each listed table
  whose canonical name is that of no prefixed synced table.
\<close>

definition stale_schemas :: "Config \<Rightarrow> env \<Rightarrow> SchemaTable list \<Rightarrow> string list" where
  "stale_schemas config env pgSchemaTables =
     filter (\<lambda>s. s \<notin> Schema ` set (prefixed config pgSchemaTables)) (icebergSchemas env)"

definition stale_tables :: "Config \<Rightarrow> env \<Rightarrow> SchemaTable list \<Rightarrow> SchemaTable list" where
  "stale_tables config env pgSchemaTables =
     filter (\<lambda>t. SchemaTable_String t \<notin> SchemaTable_String ` set (prefixed config pgSchemaTables))
       (icebergSchemaTables env)"

definition reconcile_calls :: "Config \<Rightarrow> env \<Rightarrow> SchemaTable list \<Rightarrow> call list" where
  "reconcile_calls config env pgSchemaTables =
     ReaderSchemas # map DeleteSchema (stale_schemas config env pgSchemaTables) @
     ReaderSchemaTables # map DeleteSchemaTable (stale_tables config env pgSchemaTables)"

section \<open>Scenarios\<close>

text \<open>The scenario of the spec: five data rows behind the header, pulled in batches of two.\<close>

definition five_rows :: pipeline where
  "five_rows =
     \<lparr>csvReader = [Inr [''1'', ''a''], Inr [''2'', ''b''], Inr [''3'', ''c''],
                    Inr [''4'', ''d''], Inr [''5'', ''e'']],
      reachedEnd = False\<rparr>"

text \<open>
  A shop: the source has the schemas \<^verbatim>\<open>public\<close> (tables \<^verbatim>\<open>orders\<close> and
  \<^verbatim>\<open>customers\<close>, and an index), \<^verbatim>\<open>sales\<close> (table \<^verbatim>\<open>logs\<close>) and \<^verbatim>\<open>crm\<close> (a
  second table \<^verbatim>\<open>customers\<close>) beside two system schemas; the catalog lists the columns
  of \<^verbatim>\<open>public.orders\<close> in another order than the export; the destination holds all of
  these and a schema \<^verbatim>\<open>archived\<close> that the source no longer has; no call fails.
\<close>

definition text_column :: "string \<Rightarrow> string \<Rightarrow> PgSchemaColumn" where
  "text_column name position =
     \<lparr>ColumnName = name, DataType = ''text'', UdtName = ''text'', IsNullable = ''YES'',
      OrdinalPosition = position, CharacterMaximumLength = ''0'', NumericPrecision = ''0'',
      NumericScale = ''0'', DatetimePrecision = ''0''\<rparr>"

definition shop_export :: "string \<Rightarrow> csv_stream" where
  "shop_export name =
     (if name = ''public.orders''
      then [Inr [''id'', ''name'', ''created_at''], Inr [''1'', ''a'', ''mon''], Inr [''2'', ''b'', ''tue'']]
      else if name = ''public.customers''
      then [Inr [''id'', ''email''], Inr [''7'', ''x@y'']]
      else [Inr [''id'']])"

definition shop_env :: env where
  "shop_env =
     \<lparr>fails = (\<lambda>log c. None),
      schemata = [''public'', ''pg_catalog'', ''sales'', ''information_schema'', ''crm''],
      pg_class =
        [\<lparr>nspname = ''public'', relname = ''orders'', relkind = CHR ''r'', parent_relname = ''''\<rparr>,
         \<lparr>nspname = ''public'', relname = ''customers'', relkind = CHR ''r'', parent_relname = ''''\<rparr>,
         \<lparr>nspname = ''public'', relname = ''orders_pkey'', relkind = CHR ''i'', parent_relname = ''''\<rparr>,
         \<lparr>nspname = ''sales'', relname = ''logs'', relkind = CHR ''r'', parent_relname = ''''\<rparr>,
         \<lparr>nspname = ''crm'', relname = ''customers'', relkind = CHR ''r'', parent_relname = ''''\<rparr>],
      information_schema_columns =
        [\<lparr>table_schema = ''public'', table_name = ''orders'', column_values = text_column ''name'' ''2''\<rparr>,
         \<lparr>table_schema = ''public'', table_name = ''customers'', column_values = text_column ''id'' ''1''\<rparr>,
         \<lparr>table_schema = ''public'', table_name = ''orders'', column_values = text_column ''created_at'' ''3''\<rparr>,
         \<lparr>table_schema = ''public'', table_name = ''orders'', column_values = text_column ''id'' ''1''\<rparr>,
         \<lparr>table_schema = ''public'', table_name = ''customers'', column_values = text_column ''email'' ''2''\<rparr>,
         \<lparr>table_schema = ''sales'', table_name = ''logs'', column_values = text_column ''id'' ''1''\<rparr>,
         \<lparr>table_schema = ''crm'', table_name = ''customers'', column_values = text_column ''id'' ''1''\<rparr>],
      copy_csv = shop_export,
      icebergSchemas = [''public'', ''sales'', ''archived'', ''crm''],
      icebergSchemaTables =
        [\<lparr>Schema = ''public'', Table = ''orders'', ParentPartitionedTable = ''''\<rparr>,
         \<lparr>Schema = ''public'', Table = ''customers'', ParentPartitionedTable = ''''\<rparr>,
         \<lparr>Schema = ''sales'', Table = ''logs'', ParentPartitionedTable = ''''\<rparr>,
         \<lparr>Schema = ''archived'', Table = ''old'', ParentPartitionedTable = ''''\<rparr>,
         \<lparr>Schema = ''crm'', Table = ''customers'', ParentPartitionedTable = ''''\<rparr>]\<rparr>"

definition shop_config :: "string \<Rightarrow> Config" where
  "shop_config only =
     \<lparr>OnlyTables = only,
      Pg = \<lparr>DatabaseUrl = ''postgres://shop'', SyncInterval = '''', SchemaPrefix = ''''\<rparr>\<rparr>"

definition public_orders :: SchemaTable where
  "public_orders = \<lparr>Schema = ''public'', Table = ''orders'', ParentPartitionedTable = ''''\<rparr>"

definition public_customers :: SchemaTable where
  "public_customers = \<lparr>Schema = ''public'', Table = ''customers'', ParentPartitionedTable = ''''\<rparr>"

definition sales_logs :: SchemaTable where
  "sales_logs = \<lparr>Schema = ''sales'', Table = ''logs'', ParentPartitionedTable = ''''\<rparr>"

definition crm_customers :: SchemaTable where
  "crm_customers = \<lparr>Schema = ''crm'', Table = ''customers'', ParentPartitionedTable = ''''\<rparr>"

definition archived_old :: SchemaTable where
  "archived_old = \<lparr>Schema = ''archived'', Table = ''old'', ParentPartitionedTable = ''''\<rparr>"

text \<open>
  The calls of a pass over the shop with the allow-list \<^verbatim>\<open>orders,customers\<close>, up to
  reconciliation and from its first delete on.
\<close>

definition shop_sync_calls :: "call list" where
  "shop_sync_calls =
     [PgConnect ''postgres://shop'', PgExec BEGIN_SNAPSHOT, QuerySchemata, QueryTables ''public'',
      CreateTemporaryFile ''public.orders'', CopyTo ''public.orders'', OsOpen ''public.orders'',
      DeleteTemporaryFile ''public.orders'',
      QueryColumns public_orders [''id'', ''name'', ''created_at''],
      IcebergWrite public_orders
        [text_column ''id'' ''1'', text_column ''name'' ''2'', text_column ''created_at'' ''3'']
        [[[''1'', ''a'', ''mon''], [''2'', ''b'', ''tue'']]],
      CreateTemporaryFile ''public.customers'', CopyTo ''public.customers'',
      OsOpen ''public.customers'', DeleteTemporaryFile ''public.customers'',
      QueryColumns public_customers [''id'', ''email''],
      IcebergWrite public_customers [text_column ''id'' ''1'', text_column ''email'' ''2'']
        [[[''7'', ''x@y'']]],
      QueryTables ''sales'', QueryTables ''crm'',
      CreateTemporaryFile ''crm.customers'', CopyTo ''crm.customers'',
      OsOpen ''crm.customers'', DeleteTemporaryFile ''crm.customers'',
      QueryColumns crm_customers [''id''],
      IcebergWrite crm_customers [text_column ''id'' ''1''] []]"

definition shop_deletes :: "call list" where
  "shop_deletes =
     [DeleteSchema ''sales'', DeleteSchema ''archived'', ReaderSchemaTables,
      DeleteSchemaTable sales_logs, DeleteSchemaTable archived_old, PgClose]"

text \<open>
  The calls of a pass over the shop with the wildcard as allow-list: nothing is exported
  and everything the destination lists is deleted.
\<close>

definition wildcard_calls :: "call list" where
  "wildcard_calls =
     [PgConnect ''postgres://shop'', PgExec BEGIN_SNAPSHOT, QuerySchemata,
      QueryTables ''public'', QueryTables ''sales'', QueryTables ''crm'',
      ReaderSchemas, DeleteSchema ''public'', DeleteSchema ''sales'', DeleteSchema ''archived'',
      DeleteSchema ''crm'',
      ReaderSchemaTables, DeleteSchemaTable public_orders, DeleteSchemaTable public_customers,
      DeleteSchemaTable sales_logs, DeleteSchemaTable archived_old,
      DeleteSchemaTable crm_customers, PgClose]"

text \<open>
  The shop with an export in which the second data record is malformed: the CSV reader
  reports a parse error for it and could go on to the record behind it.
\<close>

definition torn_env :: env where
  "torn_env =
     shop_env\<lparr>copy_csv := (\<lambda>name.
       [Inr [''id'', ''name'', ''created_at''], Inr [''1'', ''a'', ''mon''],
        Inl (ParseError ''bare quote in non-quoted field''), Inr [''3'', ''c'', ''wed'']])\<rparr>"

definition torn_calls :: "call list" where
  "torn_calls =
     [PgConnect ''postgres://shop'', PgExec BEGIN_SNAPSHOT, QuerySchemata, QueryTables ''public'',
      CreateTemporaryFile ''public.orders'', CopyTo ''public.orders'', OsOpen ''public.orders'',
      DeleteTemporaryFile ''public.orders'',
      QueryColumns public_orders [''id'', ''name'', ''created_at''],
      IcebergWrite public_orders
        [text_column ''id'' ''1'', text_column ''name'' ''2'', text_column ''created_at'' ''3'']
        [[[''1'', ''a'', ''mon'']]],
      QueryTables ''sales'', QueryTables ''crm'',
      ReaderSchemas, DeleteSchema ''sales'', DeleteSchema ''archived'', DeleteSchema ''crm'',
      ReaderSchemaTables, DeleteSchemaTable public_customers, DeleteSchemaTable sales_logs,
      DeleteSchemaTable archived_old, DeleteSchemaTable crm_customers, PgClose]"

section \<open>Auxiliary definitions\<close>

text \<open>The outcome of a loop without the map of its state: the error or the synced tables, and the log.\<close>

definition without_map :: "(error + ('m \<times> 'a)) \<times> call list \<Rightarrow> (error + 'a) \<times> call list" where
  "without_map outcome = (case outcome of (r, log) \<Rightarrow> (map_sum id snd r, log))"


section \<open>Properties of the batch pipeline\<close>

text \<open>The loop of the closure, step by step over \<^verbatim>\<open>csvReader.Read()\<close>.\<close>

lemma read_loop_Read:
  "read_loop maxRows rows s =
     (case csvReader_Read s of
        (Inl err, rest) \<Rightarrow> (rows, rest, True)
      | (Inr row, rest) \<Rightarrow>
          (let rows' = rows @ [row]
           in if length rows' \<ge> maxRows then (rows', rest, False)
              else read_loop maxRows rows' rest))"
  by (cases "(maxRows, rows, s)" rule: read_loop.cases) simp_all

lemma read_loop_size:
  "read_loop n acc s = (rows, rest, ended) \<Longrightarrow> length acc < n \<Longrightarrow>
     length rows \<le> n \<and> (\<not> ended \<longrightarrow> length rows = n)"
proof (induction n acc s arbitrary: rows rest ended rule: read_loop.induct)
  case (1 maxRows rows)
  then show ?case by auto
next
  case (2 maxRows rows err rest)
  then show ?case by auto
next
  case (3 maxRows acc row more)
  show ?case
  proof (cases "maxRows \<le> length (acc @ [row])")
    case True
    with 3(2,3) show ?thesis by auto
  next
    case False
    with 3(2) have "read_loop maxRows (acc @ [row]) more = (rows, rest, ended)"
      by simp
    from 3(1)[OF refl False this] False show ?thesis by auto
  qed
qed

lemma read_loop_grows:
  "read_loop n acc s = (rows, rest, ended) \<Longrightarrow>
     length acc \<le> length rows \<and> (\<not> ended \<longrightarrow> length acc < length rows)"
proof (induction n acc s arbitrary: rows rest ended rule: read_loop.induct)
  case (1 maxRows rows)
  then show ?case by auto
next
  case (2 maxRows rows err rest)
  then show ?case by auto
next
  case (3 maxRows acc row more)
  show ?case
  proof (cases "maxRows \<le> length (acc @ [row])")
    case True
    with 3(2) show ?thesis by auto
  next
    case False
    with 3(2) have "read_loop maxRows (acc @ [row]) more = (rows, rest, ended)"
      by simp
    from 3(1)[OF refl False this] show ?thesis by auto
  qed
qed

lemma nextBatch_ended:
  "reachedEnd p \<Longrightarrow> nextBatch n p = ([], p)"
  by (simp add: nextBatch_def)

lemma nextBatch_size:
  assumes "0 < n" and "nextBatch n p = (rows, p')"
  shows "length rows \<le> n" and "length rows < n \<Longrightarrow> reachedEnd p'"
  using assms read_loop_size[of n "[]" "csvReader p"]
  by (auto simp: nextBatch_def split: if_splits prod.splits)

lemma nextBatch_empty:
  assumes "nextBatch n p = ([], p')"
  shows "reachedEnd p'"
  using assms read_loop_grows[of n "[]" "csvReader p"]
  by (auto simp: nextBatch_def split: if_splits prod.splits)

lemma after_pulls_ended:
  "reachedEnd p \<Longrightarrow> after_pulls n k p = p"
  by (induction k) (simp_all add: nextBatch_ended)

lemma after_pulls_Suc:
  "after_pulls n (Suc k) p = snd (nextBatch n (after_pulls n k p))"
  by (induction k arbitrary: p) simp_all

lemma after_pulls_add:
  "after_pulls n (i + j) p = after_pulls n j (after_pulls n i p)"
  by (induction i arbitrary: p) simp_all

lemma pulls_nth:
  "i < k \<Longrightarrow> pulls n k p ! i = fst (nextBatch n (after_pulls n i p))"
proof (induction k arbitrary: i p)
  case 0
  then show ?case by simp
next
  case (Suc k)
  then show ?case
    by (cases i) (auto split: prod.splits)
qed

lemma length_pulls: "length (pulls n k p) = k"
  by (induction k arbitrary: p) (auto split: prod.splits)

lemma ended_stays:
  assumes "reachedEnd (after_pulls n i p)" and "i \<le> j"
  shows "after_pulls n j p = after_pulls n i p"
proof -
  from assms(2) obtain d where "j = i + d" by (auto simp: le_iff_add)
  then show ?thesis using assms(1) by (simp add: after_pulls_add after_pulls_ended)
qed

lemma empty_from_length:
  "length (csvReader p) \<le> k \<Longrightarrow> fst (nextBatch n (after_pulls n k p)) = []"
proof (induction k arbitrary: p)
  case 0
  then show ?case by (simp add: nextBatch_def)
next
  case (Suc k)
  obtain rows p' where nb: "nextBatch n p = (rows, p')" by (cases "nextBatch n p")
  show ?case
  proof (cases "rows = []")
    case True
    with nb have "reachedEnd p'" by (simp add: nextBatch_empty)
    then show ?thesis using nb by (simp add: after_pulls_ended nextBatch_ended)
  next
    case False
    with nb have "length (csvReader p') < length (csvReader p)"
      by (simp add: nextBatch_reader)
    with Suc.prems have "length (csvReader p') \<le> k" by simp
    from Suc.IH[OF this] show ?thesis using nb by simp
  qed
qed

text \<open>
  C3. With a maximum batch row count \<open>maxRows > 0\<close>, among the batches of any \<open>k\<close>
  successive pulls: no batch has more than \<open>maxRows\<close> rows; every batch that is followed
  by a non-empty batch has exactly \<open>maxRows\<close> rows (so only the last non-empty batch can be
  shorter); once a pull has returned empty every later pull returns empty and leaves the
  reader and the flag as they were (the stream is not read again); and a pull returns
  empty at the latest after as many pulls as the stream has records. With batch size 2 and
  five data rows the pulls give batches of sizes 2, 2, 1 and then an empty one.
\<close>

theorem C3_batches:
  assumes "0 < maxRows"
  shows "(\<forall>i<k. length (pulls maxRows k p ! i) \<le> maxRows)
    \<and> (\<forall>i j. i < j \<and> j < k \<and> pulls maxRows k p ! j \<noteq> [] \<longrightarrow>
          length (pulls maxRows k p ! i) = maxRows)
    \<and> (\<forall>i j. i < j \<and> j < k \<and> pulls maxRows k p ! i = [] \<longrightarrow>
          pulls maxRows k p ! j = [] \<and>
          after_pulls maxRows (Suc j) p = after_pulls maxRows (Suc i) p)
    \<and> (\<forall>i. length (csvReader p) \<le> i \<and> i < k \<longrightarrow> pulls maxRows k p ! i = [])
    \<and> map length (pulls 2 4 \<lparr>csvReader = [Inr r1, Inr r2, Inr r3, Inr r4, Inr r5],
                                reachedEnd = False\<rparr>) = [2, 2, 1, 0]"
proof (intro conjI allI impI)
  fix i assume "i < k"
  then show "length (pulls maxRows k p ! i) \<le> maxRows"
    using nextBatch_size(1)[OF assms, of "after_pulls maxRows i p"]
    by (metis pulls_nth prod.collapse)
next
  fix i j assume a: "i < j \<and> j < k \<and> pulls maxRows k p ! j \<noteq> []"
  show "length (pulls maxRows k p ! i) = maxRows"
  proof (rule ccontr)
    assume ne: "length (pulls maxRows k p ! i) \<noteq> maxRows"
    let ?q = "after_pulls maxRows i p"
    have i: "pulls maxRows k p ! i = fst (nextBatch maxRows ?q)"
      using a by (simp add: pulls_nth)
    have "length (fst (nextBatch maxRows ?q)) \<le> maxRows"
      using nextBatch_size(1)[OF assms, of ?q] by (metis prod.collapse)
    with ne i have "length (fst (nextBatch maxRows ?q)) < maxRows" by simp
    then have "reachedEnd (snd (nextBatch maxRows ?q))"
      using nextBatch_size(2)[OF assms, of ?q] by (metis prod.collapse)
    then have r: "reachedEnd (after_pulls maxRows (Suc i) p)"
      by (simp only: after_pulls_Suc)
    have "after_pulls maxRows j p = after_pulls maxRows (Suc i) p"
      using r a by (intro ended_stays) auto
    with r have "fst (nextBatch maxRows (after_pulls maxRows j p)) = []"
      by (simp add: nextBatch_ended)
    moreover have "pulls maxRows k p ! j = fst (nextBatch maxRows (after_pulls maxRows j p))"
      using a by (intro pulls_nth) simp
    ultimately show False using a by simp
  qed
next
  fix i j assume a: "i < j \<and> j < k \<and> pulls maxRows k p ! i = []"
  let ?q = "after_pulls maxRows i p"
  have "i < k" using a by simp
  then have "pulls maxRows k p ! i = fst (nextBatch maxRows ?q)" by (rule pulls_nth)
  with a have "fst (nextBatch maxRows ?q) = []" by simp
  then have "reachedEnd (snd (nextBatch maxRows ?q))"
    by (metis nextBatch_empty prod.collapse)
  then have r: "reachedEnd (after_pulls maxRows (Suc i) p)"
    by (simp only: after_pulls_Suc)
  have j: "after_pulls maxRows j p = after_pulls maxRows (Suc i) p"
    using r a by (intro ended_stays) auto
  with r show "pulls maxRows k p ! j = []"
    using a by (simp add: pulls_nth nextBatch_ended)
  show "after_pulls maxRows (Suc j) p = after_pulls maxRows (Suc i) p"
    using r a by (intro ended_stays) auto
next
  fix i assume "length (csvReader p) \<le> i \<and> i < k"
  then show "pulls maxRows k p ! i = []"
    by (simp add: pulls_nth empty_from_length)
next
  show "map length (pulls 2 4 \<lparr>csvReader = [Inr r1, Inr r2, Inr r3, Inr r4, Inr r5],
                                reachedEnd = False\<rparr>) = [2, 2, 1, 0]"
    by (simp add: nextBatch_def numeral_2_eq_2 numeral_eq_Suc)
qed

theorem C3_batches_witness:
  "(0::nat) < 2
   \<and> pulls 2 6 five_rows =
       [[[''1'', ''a''], [''2'', ''b'']], [[''3'', ''c''], [''4'', ''d'']], [[''5'', ''e'']], [], [], []]
   \<and> length (pulls 2 6 five_rows ! 1) = 2 \<and> pulls 2 6 five_rows ! 2 \<noteq> []
   \<and> pulls 2 6 five_rows ! 3 = [] \<and> pulls 2 6 five_rows ! 5 = []
   \<and> after_pulls 2 (Suc 5) five_rows = after_pulls 2 (Suc 3) five_rows
   \<and> length (csvReader five_rows) \<le> 5"
  using C3_batches[of 2 6 five_rows]
  by (simp add: five_rows_def nextBatch_def numeral_2_eq_2 numeral_eq_Suc)

section \<open>The calls of a pass\<close>

lemma written_append: "written (a @ b) = written a @ written b"
  by (induction a rule: written.induct) simp_all

lemma andThenE:
  assumes "andThen m f log = (r, log')"
  obtains (panic) e where "m log = (Inl e, log')" and "r = Inl e"
  | (go) x mid where "m log = (Inr x, mid)" and "f x mid = (r, log')"
  using assms by (auto simp: andThen_def split: prod.splits sum.splits)

lemma externalE:
  assumes "external env c log = (r, log')"
  obtains "log' = log @ [c]"
  using assms by (auto simp: external_def split: option.splits)

lemma deferredE:
  assumes "deferred c m log = (r, log')"
  obtains mid where "m log = (r, mid)" and "log' = mid @ [c]"
  using assms by (auto simp: deferred_def split: prod.splits)

lemma returnsE:
  assumes "returns x log = (r, log')"
  obtains "r = Inr x" and "log' = log"
  using assms by (auto simp: returns_def)

lemma panicsE:
  assumes "panics e log = (r, log')"
  obtains "r = Inl e" and "log' = log"
  using assms by (auto simp: panics_def)

lemma exportPgTableToCsv_calls:
  assumes "exportPgTableToCsv env t log = (r, log')"
  shows "\<exists>cs. log' = log @ cs \<and> (\<forall>c\<in>set cs. is_table_sync c) \<and> written cs = [] \<and>
           (\<forall>csv. r = Inr csv \<longrightarrow> csv = copy_csv env (SchemaTable_String t) \<and>
              cs = [CreateTemporaryFile (SchemaTable_String t), CopyTo (SchemaTable_String t),
                    OsOpen (SchemaTable_String t), DeleteTemporaryFile (SchemaTable_String t)])"
  using assms unfolding exportPgTableToCsv_def
  by (auto elim!: andThenE externalE deferredE returnsE)

lemma syncFromPgTable_calls:
  assumes "syncFromPgTable env t log = (r, log')"
  shows "\<exists>cs. log' = log @ cs \<and> (\<forall>c\<in>set cs. is_table_sync c) \<and>
           (r = Inr () \<longrightarrow> written cs = [t])"
proof -
  from assms show ?thesis
    unfolding syncFromPgTable_def
  proof (cases rule: andThenE)
    case (panic e)
    from exportPgTableToCsv_calls[OF panic(1)] panic(2) show ?thesis by auto
  next
    case (go csv mid)
    from exportPgTableToCsv_calls[OF go(1)] obtain cs where
      cs: "mid = log @ cs" "\<forall>c\<in>set cs. is_table_sync c" "written cs = []" by auto
    show ?thesis
    proof (cases "csvReader_Read csv")
      case (Pair hd rest)
      show ?thesis
      proof (cases hd)
        case (Inl err)
        with go(2) Pair cs show ?thesis by (auto elim!: panicsE)
      next
        case (Inr header)
        with go(2) Pair cs show ?thesis
          unfolding pgTableSchemaColumns_def
          by (auto elim!: andThenE externalE returnsE simp: written_append)
      qed
    qed
  qed
qed

lemma syncTable_mark_seen [simp]: "syncTable (mark_seen m n) x = syncTable m x"
  by (auto simp: syncTable_def mark_seen_def split: option.splits)

lemma is_table_sync_source [simp]: "is_table_sync c \<Longrightarrow> is_source c"
  by (cases c) simp_all

lemma tables_loop_calls:
  assumes "tables_loop env ts (m, acc) log = (r, log')"
  shows "\<exists>cs. log' = log @ cs \<and> (\<forall>c\<in>set cs. is_table_sync c) \<and>
           (\<forall>m' acc'. r = Inr (m', acc') \<longrightarrow>
              syncTable m' = syncTable m \<and>
              acc' = acc @ filter (\<lambda>t. syncTable m (Table t)) ts \<and>
              written cs = filter (\<lambda>t. syncTable m (Table t)) ts)"
  using assms
proof (induction ts arbitrary: m acc log)
  case Nil
  then show ?case by (auto elim!: returnsE)
next
  case (Cons t ts)
  show ?case
  proof (cases "syncTable m (Table t)")
    case False
    with Cons.prems have "tables_loop env ts (mark_seen m (Table t), acc) log = (r, log')"
      by simp
    from Cons.IH[OF this] False show ?thesis by (auto simp: fun_eq_iff)
  next
    case True
    with Cons.prems have
      "andThen (syncFromPgTable env t)
         (\<lambda>_. tables_loop env ts (mark_seen m (Table t), acc @ [t])) log = (r, log')"
      by simp
    then show ?thesis
    proof (cases rule: andThenE)
      case (panic e)
      from syncFromPgTable_calls[OF panic(1)] panic(2) show ?thesis by auto
    next
      case (go x mid)
      from syncFromPgTable_calls[OF go(1)] obtain cs1 where
        cs1: "mid = log @ cs1" "\<forall>c\<in>set cs1. is_table_sync c" "written cs1 = [t]" by auto
      from Cons.IH[OF go(2)] obtain cs2 where
        cs2: "log' = mid @ cs2" "\<forall>c\<in>set cs2. is_table_sync c"
          "\<forall>m' acc'. r = Inr (m', acc') \<longrightarrow>
              syncTable m' = syncTable (mark_seen m (Table t)) \<and>
              acc' = (acc @ [t]) @ filter (\<lambda>t'. syncTable (mark_seen m (Table t)) (Table t')) ts \<and>
              written cs2 = filter (\<lambda>t'. syncTable (mark_seen m (Table t)) (Table t')) ts"
        by blast
      show ?thesis
      proof (intro exI[of _ "cs1 @ cs2"] conjI allI impI)
        show "log' = log @ cs1 @ cs2" using cs1 cs2 by simp
        show "\<forall>c\<in>set (cs1 @ cs2). is_table_sync c" using cs1 cs2 by auto
      next
        fix m' acc' assume r: "r = Inr (m', acc')"
        with cs2(3) show "syncTable m' = syncTable m" by (auto simp: fun_eq_iff)
        from r cs2(3) True show "acc' = acc @ filter (\<lambda>t. syncTable m (Table t)) (t # ts)"
          by simp
        from r cs2(3) cs1 True show "written (cs1 @ cs2) = filter (\<lambda>t. syncTable m (Table t)) (t # ts)"
          by (simp add: written_append)
      qed
    qed
  qed
qed


lemma found_schema_iff: "found_schema s ps \<longleftrightarrow> s \<in> Schema ` set ps"
  by (induction ps) auto

lemma found_table_iff:
  "found_table t ps \<longleftrightarrow> SchemaTable_String t \<in> SchemaTable_String ` set ps"
  by (induction ps) auto

lemma delete_schemas_calls:
  assumes "delete_schemas env ps ss log = (r, log')"
  shows "\<exists>n. log' = log @ take n (map DeleteSchema (filter (\<lambda>s. s \<notin> Schema ` set ps) ss)) \<and>
           (r = Inr () \<longrightarrow> log' = log @ map DeleteSchema (filter (\<lambda>s. s \<notin> Schema ` set ps) ss))"
  using assms
proof (induction ss arbitrary: log)
  case Nil
  then show ?case by (auto elim!: returnsE)
next
  case (Cons s ss)
  let ?rest = "map DeleteSchema (filter (\<lambda>s. s \<notin> Schema ` set ps) ss)"
  show ?case
  proof (cases "found_schema s ps")
    case True
    with Cons.prems have "delete_schemas env ps ss log = (r, log')" by simp
    from Cons.IH[OF this] True show ?thesis by (simp add: found_schema_iff)
  next
    case False
    with Cons.prems have
      "andThen (external env (DeleteSchema s)) (\<lambda>_. delete_schemas env ps ss) log = (r, log')"
      by simp
    then show ?thesis
    proof (cases rule: andThenE)
      case (panic e)
      then have "log' = log @ take 1 (DeleteSchema s # ?rest)" by (auto elim!: externalE)
      with panic(2) False show ?thesis
        by (intro exI[of _ 1]) (simp add: found_schema_iff)
    next
      case (go x mid)
      then have mid: "mid = log @ [DeleteSchema s]" by (auto elim!: externalE)
      from Cons.IH[OF go(2)] obtain n where
        n: "log' = mid @ take n ?rest" "r = Inr () \<longrightarrow> log' = mid @ ?rest" by blast
      with mid False show ?thesis
        by (intro exI[of _ "Suc n"]) (simp add: found_schema_iff)
    qed
  qed
qed

lemma delete_tables_calls:
  assumes "delete_tables env ps ts log = (r, log')"
  shows "\<exists>n. log' = log @ take n (map DeleteSchemaTable
                  (filter (\<lambda>t. SchemaTable_String t \<notin> SchemaTable_String ` set ps) ts)) \<and>
           (r = Inr () \<longrightarrow> log' = log @ map DeleteSchemaTable
                  (filter (\<lambda>t. SchemaTable_String t \<notin> SchemaTable_String ` set ps) ts))"
  using assms
proof (induction ts arbitrary: log)
  case Nil
  then show ?case by (auto elim!: returnsE)
next
  case (Cons t ts)
  let ?rest = "map DeleteSchemaTable
                  (filter (\<lambda>t. SchemaTable_String t \<notin> SchemaTable_String ` set ps) ts)"
  show ?case
  proof (cases "found_table t ps")
    case True
    with Cons.prems have "delete_tables env ps ts log = (r, log')" by simp
    from Cons.IH[OF this] True show ?thesis by (simp add: found_table_iff)
  next
    case False
    with Cons.prems have
      "andThen (external env (DeleteSchemaTable t)) (\<lambda>_. delete_tables env ps ts) log = (r, log')"
      by simp
    then show ?thesis
    proof (cases rule: andThenE)
      case (panic e)
      then have "log' = log @ take 1 (DeleteSchemaTable t # ?rest)" by (auto elim!: externalE)
      with panic(2) False show ?thesis
        by (intro exI[of _ 1]) (simp add: found_table_iff)
    next
      case (go x mid)
      then have mid: "mid = log @ [DeleteSchemaTable t]" by (auto elim!: externalE)
      from Cons.IH[OF go(2)] obtain n where
        n: "log' = mid @ take n ?rest" "r = Inr () \<longrightarrow> log' = mid @ ?rest" by blast
      with mid False show ?thesis
        by (intro exI[of _ "Suc n"]) (simp add: found_table_iff)
    qed
  qed
qed

lemma deleteOldIcebergSchemaTables_calls:
  assumes "deleteOldIcebergSchemaTables config env synced log = (r, log')"
  shows "\<exists>n. log' = log @ take (Suc n) (reconcile_calls config env synced) \<and>
           (r = Inr () \<longrightarrow> log' = log @ reconcile_calls config env synced)"
  using assms unfolding deleteOldIcebergSchemaTables_def
proof (cases rule: andThenE)
  case (panic e)
  then have "log' = log @ take (Suc 0) (reconcile_calls config env synced)"
    by (auto elim!: externalE simp: reconcile_calls_def)
  with panic(2) show ?thesis by blast
next
  case (go x mid)
  then have mid: "mid = log @ [ReaderSchemas]" by (auto elim!: externalE)
  let ?ds = "map DeleteSchema (stale_schemas config env synced)"
  let ?dt = "map DeleteSchemaTable (stale_tables config env synced)"
  from go(2) show ?thesis
  proof (cases rule: andThenE)
    case (panic e)
    from delete_schemas_calls[OF panic(1)] obtain n where
      "log' = mid @ take n ?ds" unfolding stale_schemas_def by blast
    then have "log' = log @ take (Suc (min n (length ?ds))) (reconcile_calls config env synced)"
      using mid by (simp add: reconcile_calls_def min_def)
    with panic(2) show ?thesis by blast
  next
    case (go y mid2)
    from delete_schemas_calls[OF go(1)] have mid2: "mid2 = mid @ ?ds"
      unfolding stale_schemas_def by auto
    from go(2) show ?thesis
    proof (cases rule: andThenE)
      case (panic e)
      then have "log' = mid2 @ [ReaderSchemaTables]" by (auto elim!: externalE)
      then have "log' = log @ take (Suc (Suc (length ?ds))) (reconcile_calls config env synced)"
        using mid mid2 by (simp add: reconcile_calls_def)
      with panic(2) show ?thesis by blast
    next
      case (go z mid3)
      then have mid3: "mid3 = mid2 @ [ReaderSchemaTables]" by (auto elim!: externalE)
      from delete_tables_calls[OF go(2)] obtain n where
        n: "log' = mid3 @ take n ?dt" "r = Inr () \<longrightarrow> log' = mid3 @ ?dt"
        unfolding stale_tables_def by blast
      have "log' = log @ take (Suc (Suc (length ?ds) + n)) (reconcile_calls config env synced)"
        using n(1) mid mid2 mid3 by (simp add: reconcile_calls_def)
      moreover have "r = Inr () \<longrightarrow> log' = log @ reconcile_calls config env synced"
        using n(2) mid mid2 mid3 by (simp add: reconcile_calls_def)
      ultimately show ?thesis by blast
    qed
  qed
qed

lemma is_source_not_reconcile [simp]: "is_source c \<Longrightarrow> \<not> is_reconcile c"
  by (cases c) simp_all

lemma is_reconcile_not_table_sync [simp]: "is_reconcile c \<Longrightarrow> \<not> is_table_sync c"
  by (cases c) simp_all


section \<open>Evaluation of the scenarios\<close>

lemma Write_batches_stop: "fst (nextBatch n p) = [] \<Longrightarrow> Write_batches n p = []"
  by (subst Write_batches.simps) (auto split: prod.splits)

lemma Write_batches_more:
  "fst (nextBatch n p) \<noteq> [] \<Longrightarrow>
     Write_batches n p = fst (nextBatch n p) # Write_batches n (snd (nextBatch n p))"
  by (subst Write_batches.simps) (auto split: prod.splits)

lemmas run_defs =
  SyncFromPostgres_def returns_def panics_def andThen_def external_def deferred_def
  listPgSchemas_def select_schemas_def listPgSchemaTables_def select_tables_def
  make_onlyTablesMap_def syncTable_def mark_seen_def
  deleteOldIcebergSchemaTables_def prefixed_def SchemaTable_String_def
  syncFromPgTable_def exportPgTableToCsv_def pgTableSchemaColumns_def select_columns_def
  table_columns_def column_name_def
  order_key_def BATCH_SIZE_def Write_batches_stop Write_batches_more nextBatch_def

lemmas shop_defs =
  shop_env_def shop_config_def shop_export_def text_column_def
  public_orders_def public_customers_def sales_logs_def crm_customers_def archived_old_def


lemma shop_selected:
  "selected (shop_config ''orders,customers'') shop_env =
     [public_orders, public_customers, crm_customers]"
  by (simp add: selected_def enumerated_def run_defs shop_defs)

lemma shop_reconcile:
  "deleteOldIcebergSchemaTables (shop_config ''orders,customers'') shop_env
     [public_orders, public_customers, crm_customers] [] =
     (Inr (), ReaderSchemas # butlast shop_deletes)"
  by (simp add: run_defs shop_defs shop_deletes_def)

section \<open>Reconciliation and the order of a pass\<close>




lemma Schema_prefixed:
  "Schema ` set (prefixed config ts) = (\<lambda>t. SchemaPrefix (Pg config) @ Schema t) ` set ts"
  by (auto simp: prefixed_def image_iff)

lemma String_prefixed:
  "SchemaTable_String ` set (prefixed config ts) =
     (\<lambda>t. SchemaPrefix (Pg config) @ Schema t @ ''.'' @ Table t) ` set ts"
  by (auto simp: prefixed_def image_iff SchemaTable_String_def)

lemma DeleteSchema_in_reconcile_calls:
  "DeleteSchema s \<in> set (reconcile_calls config env ts) \<longleftrightarrow>
     s \<in> set (icebergSchemas env) \<and> (\<forall>t\<in>set ts. s \<noteq> SchemaPrefix (Pg config) @ Schema t)"
  by (auto simp: reconcile_calls_def stale_schemas_def Schema_prefixed)

lemma DeleteSchemaTable_in_reconcile_calls:
  "DeleteSchemaTable d \<in> set (reconcile_calls config env ts) \<longleftrightarrow>
     d \<in> set (icebergSchemaTables env) \<and>
     (\<forall>t\<in>set ts. SchemaTable_String d \<noteq> SchemaPrefix (Pg config) @ Schema t @ ''.'' @ Table t)"
  by (auto simp: reconcile_calls_def stale_tables_def String_prefixed)

text \<open>
  C4. A reconciliation that runs to its end, given the tables synced in the pass, makes
  exactly the calls of \<open>reconcile_calls\<close>: it deletes a destination schema exactly when
  the schema is listed by the reader and equals the prefixed schema name of no synced
  table, and a destination table exactly when the table is listed and its canonical name
  equals the prefixed canonical name of no synced table; when the listed schemas and the
  canonical names of the listed tables are those of the prefixed synced tables, it only
  reads the two listings and deletes nothing.
\<close>

theorem C4_reconciliation:
  assumes "deleteOldIcebergSchemaTables config env pgSchemaTables log = (Inr (), log')"
  shows "log' = log @ reconcile_calls config env pgSchemaTables
    \<and> (\<forall>s. DeleteSchema s \<in> set (reconcile_calls config env pgSchemaTables) \<longleftrightarrow>
           s \<in> set (icebergSchemas env) \<and>
           (\<forall>t\<in>set pgSchemaTables. s \<noteq> SchemaPrefix (Pg config) @ Schema t))
    \<and> (\<forall>d. DeleteSchemaTable d \<in> set (reconcile_calls config env pgSchemaTables) \<longleftrightarrow>
           d \<in> set (icebergSchemaTables env) \<and>
           (\<forall>t\<in>set pgSchemaTables.
              SchemaTable_String d \<noteq> SchemaPrefix (Pg config) @ Schema t @ ''.'' @ Table t))
    \<and> (set (icebergSchemas env) = (\<lambda>t. SchemaPrefix (Pg config) @ Schema t) ` set pgSchemaTables \<and>
        SchemaTable_String ` set (icebergSchemaTables env) =
          (\<lambda>t. SchemaPrefix (Pg config) @ Schema t @ ''.'' @ Table t) ` set pgSchemaTables \<longrightarrow>
        log' = log @ [ReaderSchemas, ReaderSchemaTables])"
proof (intro conjI allI impI)
  from deleteOldIcebergSchemaTables_calls[OF assms]
  show full: "log' = log @ reconcile_calls config env pgSchemaTables" by simp
  show "\<And>s. DeleteSchema s \<in> set (reconcile_calls config env pgSchemaTables) \<longleftrightarrow>
           s \<in> set (icebergSchemas env) \<and>
           (\<forall>t\<in>set pgSchemaTables. s \<noteq> SchemaPrefix (Pg config) @ Schema t)"
    by (rule DeleteSchema_in_reconcile_calls)
  show "\<And>d. DeleteSchemaTable d \<in> set (reconcile_calls config env pgSchemaTables) \<longleftrightarrow>
           d \<in> set (icebergSchemaTables env) \<and>
           (\<forall>t\<in>set pgSchemaTables.
              SchemaTable_String d \<noteq> SchemaPrefix (Pg config) @ Schema t @ ''.'' @ Table t)"
    by (rule DeleteSchemaTable_in_reconcile_calls)
  assume same: "set (icebergSchemas env) = (\<lambda>t. SchemaPrefix (Pg config) @ Schema t) ` set pgSchemaTables \<and>
        SchemaTable_String ` set (icebergSchemaTables env) =
          (\<lambda>t. SchemaPrefix (Pg config) @ Schema t @ ''.'' @ Table t) ` set pgSchemaTables"
  have "stale_schemas config env pgSchemaTables = []"
  proof -
    have "\<forall>s\<in>set (icebergSchemas env). s \<in> Schema ` set (prefixed config pgSchemaTables)"
      unfolding Schema_prefixed using same by blast
    then show ?thesis unfolding stale_schemas_def by (simp add: filter_empty_conv)
  qed
  moreover have "stale_tables config env pgSchemaTables = []"
  proof -
    have "\<forall>d\<in>set (icebergSchemaTables env).
            SchemaTable_String d \<in> SchemaTable_String ` set (prefixed config pgSchemaTables)"
      unfolding String_prefixed using same by blast
    then show ?thesis unfolding stale_tables_def by (simp add: filter_empty_conv)
  qed
  ultimately show "log' = log @ [ReaderSchemas, ReaderSchemaTables]"
    using full by (simp add: reconcile_calls_def)
qed

theorem C4_reconciliation_witness:
  "deleteOldIcebergSchemaTables (shop_config ''orders,customers'') shop_env
     [public_orders, public_customers, crm_customers] [] =
     (Inr (), [ReaderSchemas, DeleteSchema ''sales'', DeleteSchema ''archived'', ReaderSchemaTables,
               DeleteSchemaTable sales_logs, DeleteSchemaTable archived_old])
   \<and> reconcile_calls (shop_config ''orders,customers'') shop_env
         [public_orders, public_customers, crm_customers] =
       [ReaderSchemas, DeleteSchema ''sales'', DeleteSchema ''archived'', ReaderSchemaTables,
        DeleteSchemaTable sales_logs, DeleteSchemaTable archived_old]
   \<and> ''archived'' \<in> set (icebergSchemas shop_env)
   \<and> ''archived'' \<noteq> SchemaPrefix (Pg (shop_config ''orders,customers'')) @ Schema public_orders
   \<and> ''archived'' \<noteq> SchemaPrefix (Pg (shop_config ''orders,customers'')) @ Schema public_customers
   \<and> DeleteSchema ''public'' \<notin> set (reconcile_calls (shop_config ''orders,customers'') shop_env
         [public_orders, public_customers, crm_customers])"
  using C4_reconciliation[OF shop_reconcile] shop_reconcile
  by (simp add: shop_deletes_def shop_defs)




lemma written_source_calls:
  "\<forall>c\<in>set cs. is_source c \<Longrightarrow> DeleteSchema s \<notin> set cs"
  by auto



section \<open>The allow-list\<close>

lemma strings_Split_nonempty: "strings_Split s sep \<noteq> []"
  by (induction s) (auto split: list.splits)



lemma strings_Split_append:
  "strings_Split (a @ sep # b) sep = strings_Split a sep @ strings_Split b sep"
proof (induction a)
  case Nil
  then show ?case by simp
next
  case (Cons c a)
  then show ?case
    using strings_Split_nonempty[of a sep] by (auto split: list.splits)
qed

lemma dom_fold_entries:
  "dom (fold (\<lambda>e m. m(e \<mapsto> False)) es m0) = dom m0 \<union> set es"
  by (induction es arbitrary: m0) auto

lemma dom_make_onlyTablesMap:
  "dom (make_onlyTablesMap config) =
     (if OnlyTables config \<noteq> ''*'' then set (strings_Split (OnlyTables config) CHR '','') else {})"
  by (simp add: make_onlyTablesMap_def dom_fold_entries)

lemma syncTable_iff: "syncTable m n \<longleftrightarrow> n \<in> dom m \<or> n = ''*''"
  by (auto simp: syncTable_def split: option.splits)



lemma shop_enumerated:
  "enumerated shop_env = [public_orders, public_customers, sales_logs, crm_customers]"
  by (simp add: enumerated_def select_schemas_def select_tables_def shop_defs)


text \<open>
  C1 (the code departs from the claim here). With the default allow-list, the wildcard,
  the map is empty and the test of lines 54 to 58 compares the name of the table, not the
  allow-list, with \<^verbatim>\<open>"*"\<close>: in the shop no enumerated table qualifies, the pass exports
  nothing and reconciliation deletes every listed destination schema and table.
\<close>

theorem C1_wildcard_selects_no_table:
  "registerFlags_OnlyTables [] = ''*''
   \<and> enumerated shop_env = [public_orders, public_customers, sales_logs, crm_customers]
   \<and> \<not> syncTable (make_onlyTablesMap (shop_config ''*'')) (Table public_orders)
   \<and> selected (shop_config ''*'') shop_env = []
   \<and> SyncFromPostgres (shop_config ''*'') shop_env [] = (Inr (), wildcard_calls)"
  unfolding shop_enumerated selected_def
  by (simp add: registerFlags_OnlyTables_def DEFAULT_TABLES_def
      run_defs shop_defs wildcard_calls_def)

section \<open>Allow-lists that agree on the enumerated tables\<close>

lemma without_map_eqE:
  assumes "without_map (r1, l1) = without_map (r2, l2)"
  obtains (panic) e where "r1 = Inl e" "r2 = Inl e" "l1 = l2"
  | (go) m1 m2 acc where "r1 = Inr (m1, acc)" "r2 = Inr (m2, acc)" "l1 = l2"
  using assms by (cases r1; cases r2) (auto simp: without_map_def)

lemma tables_loop_agree:
  assumes "\<forall>t\<in>set ts. syncTable m1 (Table t) = syncTable m2 (Table t)"
  shows "without_map (tables_loop env ts (m1, acc) log) = without_map (tables_loop env ts (m2, acc) log)"
  using assms
proof (induction ts arbitrary: m1 m2 acc log)
  case Nil
  then show ?case by (simp add: returns_def without_map_def)
next
  case (Cons t ts)
  have rest: "\<forall>t'\<in>set ts. syncTable (mark_seen m1 (Table t)) (Table t') =
                syncTable (mark_seen m2 (Table t)) (Table t')"
    using Cons.prems by simp
  have same: "syncTable m1 (Table t) = syncTable m2 (Table t)" using Cons.prems by simp
  show ?case
  proof (cases "syncTable m1 (Table t)")
    case False
    with same Cons.IH[OF rest] show ?thesis by simp
  next
    case True
    obtain r l where s: "syncFromPgTable env t log = (r, l)" by (cases "syncFromPgTable env t log")
    show ?thesis
    proof (cases r)
      case (Inl e)
      with s True same show ?thesis by (simp add: andThen_def without_map_def)
    next
      case (Inr u)
      with s True same Cons.IH[OF rest, of "acc @ [t]" l] show ?thesis
        by (simp add: andThen_def)
    qed
  qed
qed

lemma tables_loop_keeps:
  assumes "tables_loop env ts (m, acc) log = (Inr (m', acc'), log')"
  shows "syncTable m' = syncTable m"
  using tables_loop_calls[OF assms] by blast

lemma schemas_loop_agree:
  assumes "\<forall>t\<in>set (concat (map (select_tables env) ss)). syncTable m1 (Table t) = syncTable m2 (Table t)"
  shows "without_map (schemas_loop env ss (m1, acc) log) = without_map (schemas_loop env ss (m2, acc) log)"
  using assms
proof (induction ss arbitrary: m1 m2 acc log)
  case Nil
  then show ?case by (simp add: returns_def without_map_def)
next
  case (Cons s ss)
  let ?ts = "select_tables env s"
  obtain r0 l0 where q: "listPgSchemaTables env s log = (r0, l0)"
    by (cases "listPgSchemaTables env s log")
  show ?case
  proof (cases r0)
    case (Inl e)
    with q show ?thesis by (simp add: andThen_def without_map_def)
  next
    case (Inr tables)
    with q have tables: "tables = ?ts"
      by (auto simp: listPgSchemaTables_def elim!: andThenE externalE returnsE)
    obtain r1 l1 where t1: "tables_loop env ?ts (m1, acc) l0 = (r1, l1)"
      by (cases "tables_loop env ?ts (m1, acc) l0")
    obtain r2 l2 where t2: "tables_loop env ?ts (m2, acc) l0 = (r2, l2)"
      by (cases "tables_loop env ?ts (m2, acc) l0")
    have "without_map (r1, l1) = without_map (r2, l2)"
      using tables_loop_agree[of ?ts m1 m2 env acc l0] Cons.prems t1 t2 by simp
    then show ?thesis
    proof (cases rule: without_map_eqE)
      case (panic e)
      with q Inr tables t1 t2 show ?thesis by (simp add: andThen_def without_map_def)
    next
      case (go m1' m2' acc')
      have "syncTable m1' = syncTable m1" "syncTable m2' = syncTable m2"
        using tables_loop_keeps t1 t2 go by blast+
      then have "\<forall>t\<in>set (concat (map (select_tables env) ss)).
                   syncTable m1' (Table t) = syncTable m2' (Table t)"
        using Cons.prems by simp
      from Cons.IH[OF this, of acc' l1] q Inr tables t1 t2 go show ?thesis
        by (simp add: andThen_def)
    qed
  qed
qed

lemma prefixed_Pg: "Pg config1 = Pg config2 \<Longrightarrow> prefixed config1 = prefixed config2"
  by (simp add: prefixed_def fun_eq_iff)

lemma pass_agree:
  assumes pg: "Pg config1 = Pg config2"
    and same: "\<forall>t\<in>set (enumerated env).
             syncTable (make_onlyTablesMap config1) (Table t) =
             syncTable (make_onlyTablesMap config2) (Table t)"
  shows "SyncFromPostgres config1 env = SyncFromPostgres config2 env"
proof -
  have del: "deleteOldIcebergSchemaTables config1 env = deleteOldIcebergSchemaTables config2 env"
    by (simp add: deleteOldIcebergSchemaTables_def prefixed_Pg[OF pg] fun_eq_iff)
  have loop: "andThen (schemas_loop env (select_schemas env) (make_onlyTablesMap config1, []))
                (\<lambda>state. deleteOldIcebergSchemaTables config1 env (snd state)) log =
              andThen (schemas_loop env (select_schemas env) (make_onlyTablesMap config2, []))
                (\<lambda>state. deleteOldIcebergSchemaTables config2 env (snd state)) log" for log
  proof -
    obtain r1 l1 where s1:
      "schemas_loop env (select_schemas env) (make_onlyTablesMap config1, []) log = (r1, l1)"
      by (cases "schemas_loop env (select_schemas env) (make_onlyTablesMap config1, []) log")
    obtain r2 l2 where s2:
      "schemas_loop env (select_schemas env) (make_onlyTablesMap config2, []) log = (r2, l2)"
      by (cases "schemas_loop env (select_schemas env) (make_onlyTablesMap config2, []) log")
    have "without_map (r1, l1) = without_map (r2, l2)"
      using schemas_loop_agree[of env "select_schemas env" "make_onlyTablesMap config1"
          "make_onlyTablesMap config2" "[]" log] same s1 s2
      by (simp add: enumerated_def)
    then show ?thesis
      by (cases rule: without_map_eqE) (simp_all add: andThen_def s1 s2 del)
  qed
  show ?thesis
    unfolding SyncFromPostgres_def listPgSchemas_def pg
    by (rule ext) (simp add: andThen_def deferred_def returns_def loop[unfolded andThen_def]
        split: prod.splits sum.splits)
qed

text \<open>A pass in which no call fails and every selected table exports a header completes.\<close>

lemma external_ok: "\<forall>log c. fails env log c = None \<Longrightarrow> external env c log = (Inr (), log @ [c])"
  by (simp add: external_def)

lemma syncFromPgTable_ok:
  assumes "\<forall>log c. fails env log c = None"
    and "copy_csv env (SchemaTable_String t) = Inr h # rest"
  shows "fst (syncFromPgTable env t log) = Inr ()"
  using assms
  by (simp add: syncFromPgTable_def exportPgTableToCsv_def pgTableSchemaColumns_def
      andThen_def deferred_def returns_def external_ok)

lemma tables_loop_ok:
  assumes "\<forall>log c. fails env log c = None"
    and "\<forall>t\<in>set ts. syncTable m (Table t) \<longrightarrow>
           (\<exists>h rest. copy_csv env (SchemaTable_String t) = Inr h # rest)"
  shows "\<exists>state. fst (tables_loop env ts (m, acc) log) = Inr state"
  using assms(2)
proof (induction ts arbitrary: m acc log)
  case Nil
  then show ?case by (simp add: returns_def)
next
  case (Cons t ts)
  have rest: "\<forall>t'\<in>set ts. syncTable (mark_seen m (Table t)) (Table t') \<longrightarrow>
           (\<exists>h rest. copy_csv env (SchemaTable_String t') = Inr h # rest)"
    using Cons.prems by simp
  show ?case
  proof (cases "syncTable m (Table t)")
    case False
    with Cons.IH[OF rest] show ?thesis by simp
  next
    case True
    with Cons.prems obtain h r where "copy_csv env (SchemaTable_String t) = Inr h # r" by auto
    from syncFromPgTable_ok[OF assms(1) this, of log]
    obtain mid where "syncFromPgTable env t log = (Inr (), mid)"
      by (cases "syncFromPgTable env t log") auto
    with True Cons.IH[OF rest, of "acc @ [t]" mid] show ?thesis
      by (simp add: andThen_def)
  qed
qed

lemma schemas_loop_ok:
  assumes "\<forall>log c. fails env log c = None"
    and "\<forall>t\<in>set (concat (map (select_tables env) ss)). syncTable m (Table t) \<longrightarrow>
           (\<exists>h rest. copy_csv env (SchemaTable_String t) = Inr h # rest)"
  shows "\<exists>state. fst (schemas_loop env ss (m, acc) log) = Inr state"
  using assms(2)
proof (induction ss arbitrary: m acc log)
  case Nil
  then show ?case by (simp add: returns_def)
next
  case (Cons s ss)
  have here: "\<forall>t\<in>set (select_tables env s). syncTable m (Table t) \<longrightarrow>
           (\<exists>h rest. copy_csv env (SchemaTable_String t) = Inr h # rest)"
    using Cons.prems by simp
  from tables_loop_ok[OF assms(1) here, of acc "log @ [QueryTables s]"]
  obtain m' acc' mid where t: "tables_loop env (select_tables env s) (m, acc) (log @ [QueryTables s]) =
      (Inr (m', acc'), mid)"
    by (cases "tables_loop env (select_tables env s) (m, acc) (log @ [QueryTables s])") auto
  from tables_loop_calls[OF t] have "syncTable m' = syncTable m" by blast
  with Cons.prems have "\<forall>t\<in>set (concat (map (select_tables env) ss)). syncTable m' (Table t) \<longrightarrow>
           (\<exists>h rest. copy_csv env (SchemaTable_String t) = Inr h # rest)"
    by simp
  from Cons.IH[OF this, of acc' mid] t show ?case
    by (simp add: andThen_def listPgSchemaTables_def returns_def external_ok[OF assms(1)])
qed

lemma delete_schemas_ok:
  "\<forall>log c. fails env log c = None \<Longrightarrow> fst (delete_schemas env ps ss log) = Inr ()"
  by (induction ss arbitrary: log) (simp_all add: returns_def andThen_def external_ok)

lemma delete_tables_ok:
  "\<forall>log c. fails env log c = None \<Longrightarrow> fst (delete_tables env ps ts log) = Inr ()"
  by (induction ts arbitrary: log) (simp_all add: returns_def andThen_def external_ok)

lemma deleteOldIcebergSchemaTables_ok:
  assumes "\<forall>log c. fails env log c = None"
  shows "fst (deleteOldIcebergSchemaTables config env synced log) = Inr ()"
proof -
  obtain mid where "delete_schemas env (prefixed config synced) (icebergSchemas env)
      (log @ [ReaderSchemas]) = (Inr (), mid)"
    using delete_schemas_ok[OF assms, of "prefixed config synced" "icebergSchemas env" "log @ [ReaderSchemas]"]
    by (cases "delete_schemas env (prefixed config synced) (icebergSchemas env) (log @ [ReaderSchemas])") auto
  then show ?thesis
    using delete_tables_ok[OF assms]
    by (simp add: deleteOldIcebergSchemaTables_def andThen_def external_ok[OF assms])
qed

lemma pass_completes:
  assumes nofail: "\<forall>log c. fails env log c = None"
    and headers: "\<forall>t\<in>set (selected config env).
                    \<exists>h rest. copy_csv env (SchemaTable_String t) = Inr h # rest"
  shows "fst (SyncFromPostgres config env log) = Inr ()"
proof -
  let ?l3 = "log @ [PgConnect (DatabaseUrl (Pg config))] @ [PgExec BEGIN_SNAPSHOT] @ [QuerySchemata]"
  have "\<forall>t\<in>set (concat (map (select_tables env) (select_schemas env))).
          syncTable (make_onlyTablesMap config) (Table t) \<longrightarrow>
           (\<exists>h rest. copy_csv env (SchemaTable_String t) = Inr h # rest)"
    using headers by (simp add: selected_def enumerated_def)
  from schemas_loop_ok[OF nofail this, of "[]" ?l3]
  obtain state mid where s: "schemas_loop env (select_schemas env) (make_onlyTablesMap config, []) ?l3 =
      (Inr state, mid)"
    by (cases "schemas_loop env (select_schemas env) (make_onlyTablesMap config, []) ?l3") auto
  obtain r fin where d: "deleteOldIcebergSchemaTables config env (snd state) mid = (r, fin)"
    by (cases "deleteOldIcebergSchemaTables config env (snd state) mid")
  with deleteOldIcebergSchemaTables_ok[OF nofail, of config "snd state" mid] have "r = Inr ()" by simp
  with s d show ?thesis
    by (simp add: SyncFromPostgres_def listPgSchemas_def andThen_def deferred_def returns_def
        external_ok[OF nofail])
qed

text \<open>
  C6. Two allow-lists, neither the wildcard, that have the same entries apart from
  entries naming no enumerated table (however many of these each has) give the same pass:
  the same outcome, so no error comes from such entries, the same calls in the same order,
  so nothing more is exported, written or deleted, and the same selected tables. When no
  call to a collaborator fails and the export of every selected table starts with its
  header, the pass completes without error.
\<close>

theorem C6_unmatched_entries_ignored:
  assumes "Pg config' = Pg config"
    and "OnlyTables config' \<noteq> ''*''" and "OnlyTables config \<noteq> ''*''"
    and "set (strings_Split (OnlyTables config') CHR '','') - unmatched =
           set (strings_Split (OnlyTables config) CHR '','') - unmatched"
    and "\<forall>t\<in>set (enumerated env). Table t \<notin> unmatched"
  shows "SyncFromPostgres config' env = SyncFromPostgres config env
       \<and> selected config' env = selected config env
       \<and> ((\<forall>log c. fails env log c = None) \<and>
           (\<forall>t\<in>set (selected config env).
              \<exists>h rest. copy_csv env (SchemaTable_String t) = Inr h # rest) \<longrightarrow>
           fst (SyncFromPostgres config' env log) = Inr ())"
proof -
  have same: "\<forall>t\<in>set (enumerated env).
             syncTable (make_onlyTablesMap config') (Table t) =
             syncTable (make_onlyTablesMap config) (Table t)"
  proof
    fix t assume t: "t \<in> set (enumerated env)"
    with assms(5) have "Table t \<notin> unmatched" by simp
    with assms(4) have "Table t \<in> set (strings_Split (OnlyTables config') CHR '','') \<longleftrightarrow>
                        Table t \<in> set (strings_Split (OnlyTables config) CHR '','')"
      by blast
    with assms(2,3) show "syncTable (make_onlyTablesMap config') (Table t) =
             syncTable (make_onlyTablesMap config) (Table t)"
      by (simp add: syncTable_iff dom_make_onlyTablesMap)
  qed
  from pass_agree[OF assms(1) same] have "SyncFromPostgres config' env = SyncFromPostgres config env" .
  moreover have sel: "selected config' env = selected config env"
    unfolding selected_def using same by (auto intro: filter_cong)
  moreover have "fst (SyncFromPostgres config' env log) = Inr ()"
    if "(\<forall>log c. fails env log c = None) \<and>
        (\<forall>t\<in>set (selected config env).
           \<exists>h rest. copy_csv env (SchemaTable_String t) = Inr h # rest)"
    using that pass_completes[of env config' log] unfolding sel by blast
  ultimately show ?thesis by blast
qed

lemma shop_pass_unmatched:
  "SyncFromPostgres (shop_config ''orders,ghost,customers,invoices'') shop_env [] =
     (Inr (), shop_sync_calls @ ReaderSchemas # shop_deletes)"
  by (simp add: run_defs shop_defs shop_sync_calls_def shop_deletes_def)

theorem C6_unmatched_entries_ignored_witness:
  "Pg (shop_config ''orders,ghost,customers,invoices'') = Pg (shop_config ''orders,customers'')
   \<and> OnlyTables (shop_config ''orders,ghost,customers,invoices'') \<noteq> ''*''
   \<and> OnlyTables (shop_config ''orders,customers'') \<noteq> ''*''
   \<and> set (strings_Split (OnlyTables (shop_config ''orders,ghost,customers,invoices'')) CHR '','')
         - {''ghost'', ''invoices''} =
       set (strings_Split (OnlyTables (shop_config ''orders,customers'')) CHR '','')
         - {''ghost'', ''invoices''}
   \<and> list_all (\<lambda>t. Table t \<notin> {''ghost'', ''invoices''}) (enumerated shop_env)
   \<and> fails shop_env = (\<lambda>log c. None)
   \<and> map (\<lambda>t. hd (copy_csv shop_env (SchemaTable_String t)))
         (selected (shop_config ''orders,customers'') shop_env) =
       [Inr [''id'', ''name'', ''created_at''], Inr [''id'', ''email''], Inr [''id'']]
   \<and> SyncFromPostgres (shop_config ''orders,ghost,customers,invoices'') shop_env [] =
       SyncFromPostgres (shop_config ''orders,customers'') shop_env []
   \<and> SyncFromPostgres (shop_config ''orders,ghost,customers,invoices'') shop_env [] =
       (Inr (), shop_sync_calls @ ReaderSchemas # shop_deletes)"
proof -
  have pg: "Pg (shop_config ''orders,ghost,customers,invoices'') = Pg (shop_config ''orders,customers'')"
    by (simp add: shop_config_def)
  have w1: "OnlyTables (shop_config ''orders,ghost,customers,invoices'') \<noteq> ''*''"
    and w2: "OnlyTables (shop_config ''orders,customers'') \<noteq> ''*''"
    by (simp_all add: shop_config_def)
  have entries:
    "set (strings_Split (OnlyTables (shop_config ''orders,ghost,customers,invoices'')) CHR '','')
         - {''ghost'', ''invoices''} =
       set (strings_Split (OnlyTables (shop_config ''orders,customers'')) CHR '','')
         - {''ghost'', ''invoices''}"
    by (auto simp: shop_config_def)
  have none: "\<forall>t\<in>set (enumerated shop_env). Table t \<notin> {''ghost'', ''invoices''}"
    unfolding shop_enumerated
    by (simp add: public_orders_def public_customers_def sales_logs_def crm_customers_def)
  have quiet: "fails shop_env = (\<lambda>log c. None)"
    by (simp add: shop_env_def)
  have headers: "map (\<lambda>t. hd (copy_csv shop_env (SchemaTable_String t)))
         (selected (shop_config ''orders,customers'') shop_env) =
       [Inr [''id'', ''name'', ''created_at''], Inr [''id'', ''email''], Inr [''id'']]"
    unfolding shop_selected by (simp add: shop_defs SchemaTable_String_def)
  from C6_unmatched_entries_ignored[OF pg w1 w2 entries none, of "[]"] pg w1 w2 entries none
    shop_pass_unmatched quiet headers
  show ?thesis by (simp add: list_all_iff)
qed

section \<open>The schema listing\<close>



section \<open>Read failures in the batch pipeline\<close>

text \<open>
  C2 as stated fails: in the shop with the torn export the reader reports a parse error
  for the second data record of \<^verbatim>\<open>public.orders\<close>; the pass completes without error,
  having written the one record before it.
\<close>

theorem C2_parse_error_not_fatal:
  "copy_csv torn_env (SchemaTable_String public_orders) =
     [Inr [''id'', ''name'', ''created_at''], Inr [''1'', ''a'', ''mon''],
      Inl (ParseError ''bare quote in non-quoted field''), Inr [''3'', ''c'', ''wed'']]
   \<and> SyncFromPostgres (shop_config ''orders'') torn_env [] = (Inr (), torn_calls)"
  by (simp add: run_defs shop_defs torn_env_def torn_calls_def)

lemma read_loop_failure:
  "read_loop n acc (map Inr rows @ Inl err # rest) =
     (case read_loop n acc (map Inr rows) of
        (batch, s, ended) \<Rightarrow> (batch, if ended then rest else s @ Inl err # rest, ended))"
  by (induction rows arbitrary: acc) (simp_all add: Let_def)

lemma read_loop_rows:
  "read_loop n acc (map Inr rows) = (batch, s, ended) \<Longrightarrow>
     \<exists>rows'. s = map Inr rows' \<and> length rows' \<le> length rows \<and>
       (length acc < length batch \<longrightarrow> length rows' < length rows)"
proof (induction rows arbitrary: acc batch s ended)
  case Nil
  then show ?case by auto
next
  case (Cons row rows)
  show ?case
  proof (cases "n \<le> length (acc @ [row])")
    case True
    with Cons.prems show ?thesis by (auto intro: exI[of _ rows])
  next
    case False
    with Cons.prems have "read_loop n (acc @ [row]) (map Inr rows) = (batch, s, ended)"
      by simp
    from Cons.IH[OF this] show ?thesis by auto
  qed
qed

lemma pulls_ended: "reachedEnd p \<Longrightarrow> pulls n k p = replicate k []"
  by (induction k) (simp_all add: nextBatch_ended)

lemma pulls_failure:
  "pulls n k \<lparr>csvReader = map Inr rows @ Inl err # rest, reachedEnd = False\<rparr> =
   pulls n k \<lparr>csvReader = map Inr rows, reachedEnd = False\<rparr>"
proof (induction k arbitrary: rows)
  case 0
  then show ?case by simp
next
  case (Suc k)
  obtain batch s ended where r: "read_loop n [] (map Inr rows) = (batch, s, ended)"
    by (cases "read_loop n [] (map Inr rows)")
  show ?case
  proof (cases ended)
    case True
    with r show ?thesis by (simp add: nextBatch_def read_loop_failure pulls_ended)
  next
    case False
    from read_loop_rows[OF r] obtain rows' where "s = map Inr rows'" by blast
    with r False Suc.IH[of rows'] show ?thesis
      by (simp add: nextBatch_def read_loop_failure)
  qed
qed

lemma Write_batches_ended: "reachedEnd p \<Longrightarrow> Write_batches n p = []"
  by (simp add: Write_batches_stop nextBatch_ended)

lemma Write_batches_failure:
  "Write_batches n \<lparr>csvReader = map Inr rows @ Inl err # rest, reachedEnd = False\<rparr> =
   Write_batches n \<lparr>csvReader = map Inr rows, reachedEnd = False\<rparr>"
proof (induction "length rows" arbitrary: rows rule: less_induct)
  case less
  obtain batch s ended where r: "read_loop n [] (map Inr rows) = (batch, s, ended)"
    by (cases "read_loop n [] (map Inr rows)")
  show ?case
  proof (cases "batch = []")
    case True
    with r show ?thesis by (simp add: Write_batches_stop nextBatch_def read_loop_failure)
  next
    case False
    show ?thesis
    proof (cases ended)
      case True
      with r False show ?thesis
        by (simp add: Write_batches_more Write_batches_ended nextBatch_def read_loop_failure)
    next
      case nonend: False
      from read_loop_rows[OF r] False obtain rows' where
        rows': "s = map Inr rows'" "length rows' < length rows" by auto
      with r False nonend less[OF rows'(2)] show ?thesis
        by (simp add: Write_batches_more nextBatch_def read_loop_failure)
    qed
  qed
qed

text \<open>
  C2 (as amended). A read failure of any kind while batches are read, a parse error as
  much as the end of the data, ends the stream of that table and nothing more: the pulls
  and the batches the writer ingests are those of the records before the failing one, the
  records behind it are never read, and the export-and-write step of the table makes the
  same calls with the same outcome as if the export had ended there. No read failure
  behind the header is raised to the pass.
\<close>

theorem C2_read_failure_ends_stream:
  "pulls n k \<lparr>csvReader = map Inr rows @ Inl err # rest, reachedEnd = False\<rparr> =
     pulls n k \<lparr>csvReader = map Inr rows, reachedEnd = False\<rparr>
   \<and> Write_batches n \<lparr>csvReader = map Inr rows @ Inl err # rest, reachedEnd = False\<rparr> =
     Write_batches n \<lparr>csvReader = map Inr rows, reachedEnd = False\<rparr>
   \<and> syncFromPgTable (env\<lparr>copy_csv := \<lambda>name. Inr csvHeader # map Inr rows @ Inl err # rest\<rparr>) pgSchemaTable =
     syncFromPgTable (env\<lparr>copy_csv := \<lambda>name. Inr csvHeader # map Inr rows\<rparr>) pgSchemaTable"
proof (intro conjI)
  show "pulls n k \<lparr>csvReader = map Inr rows @ Inl err # rest, reachedEnd = False\<rparr> =
     pulls n k \<lparr>csvReader = map Inr rows, reachedEnd = False\<rparr>"
    by (rule pulls_failure)
  show "Write_batches n \<lparr>csvReader = map Inr rows @ Inl err # rest, reachedEnd = False\<rparr> =
     Write_batches n \<lparr>csvReader = map Inr rows, reachedEnd = False\<rparr>"
    by (rule Write_batches_failure)
  show "syncFromPgTable (env\<lparr>copy_csv := \<lambda>name. Inr csvHeader # map Inr rows @ Inl err # rest\<rparr>) pgSchemaTable =
     syncFromPgTable (env\<lparr>copy_csv := \<lambda>name. Inr csvHeader # map Inr rows\<rparr>) pgSchemaTable"
    by (rule ext)
      (simp add: syncFromPgTable_def exportPgTableToCsv_def pgTableSchemaColumns_def
        select_columns_def table_columns_def andThen_def external_def deferred_def returns_def
        Write_batches_failure split: option.splits)
qed

section \<open>The order of the column descriptors\<close>

















end
